theory Spec2Isabelle
  imports Complex_Main "HOL-Library.Monad_Syntax" "HOL-Library.Sublist" "HOL-Library.AList"
begin

section \<open>Python values used by \<open>apply_bpe.py\<close>\<close>

text \<open>
  A Python \<open>str\<close> is a \<open>string\<close>; a symbol of a word is a \<open>str\<close>, a merge rule is a
  pair of symbols.  \<open>bpe_codes\<close> is a dict from pairs to ranks and \<open>bpe_codes_reverse\<close>
  a dict from the concatenation of a pair back to the pair; \<open>encode\<close> only looks keys up
  in them, so it takes them as maps.
\<close>

type_synonym symbol = string
type_synonym pair = "symbol \<times> symbol"
type_synonym codes = "pair \<rightharpoonup> nat"
type_synonym rcodes = "string \<rightharpoonup> pair"

text \<open>
  \<open>encode\<close> returns three kinds of sequence: the \<open>str\<close> \<open>orig\<close> itself (the length-1
  return), a \<open>tuple\<close> of symbols, or the \<open>list\<close> built by \<open>check_vocab_and_split\<close>.
  The callers only iterate over the result; \<open>items\<close> is that iteration (a \<open>str\<close>
  yields its characters as one-character strings).
\<close>

datatype pyseq = PyStr string | PyTuple "symbol list" | PyList "symbol list"

fun items :: "pyseq \<Rightarrow> symbol list" where
  "items (PyStr s) = map (\<lambda>c. [c]) s"
| "items (PyTuple xs) = xs"
| "items (PyList xs) = xs"

type_synonym cache = "string \<rightharpoonup> pyseq"

datatype error =
    NotImplementedError
  | IndexError
  | ValueError
  | SysExit nat string

definition eow :: string where
  "eow = ''</w>''"

section \<open>The merge loop of \<open>encode\<close>\<close>

text \<open>
  \<open>random.random()\<close> is a sequence of draws \<open>rng\<close>: the call number \<open>k\<close> returns
  \<open>rng k\<close>, and the number of draws made so far is threaded through.

  \<open>symbol_pairs\<close> is the list comprehension of line 153 over
  \<open>enumerate(zip(word, word[1:]))\<close>.  With a dropout other than \<open>0\<close> a draw is made
  for every adjacent pair, before the pair is looked up in \<open>bpe_codes\<close>.
\<close>

fun symbol_pairs :: "codes \<Rightarrow> real \<Rightarrow> (nat \<Rightarrow> real) \<Rightarrow> nat \<Rightarrow> (nat \<times> pair) list
    \<Rightarrow> (nat \<times> nat \<times> pair) list \<times> nat" where
  "symbol_pairs bpe_codes dropout rng k [] = ([], k)"
| "symbol_pairs bpe_codes dropout rng k ((i, p) # ps) =
     (if dropout = 0 then
        (case bpe_codes p of
           Some rank \<Rightarrow>
             (case symbol_pairs bpe_codes dropout rng k ps of
                (rest, k') \<Rightarrow> ((rank, i, p) # rest, k'))
         | None \<Rightarrow> symbol_pairs bpe_codes dropout rng k ps)
      else if rng k > dropout then
        (case bpe_codes p of
           Some rank \<Rightarrow>
             (case symbol_pairs bpe_codes dropout rng (Suc k) ps of
                (rest, k') \<Rightarrow> ((rank, i, p) # rest, k'))
         | None \<Rightarrow> symbol_pairs bpe_codes dropout rng (Suc k) ps)
      else symbol_pairs bpe_codes dropout rng (Suc k) ps)"

text \<open>
  \<open>min(pairs)\<close> compares the triples \<open>(rank, i, pair)\<close> lexicographically and returns
  the first least one.  The positions \<open>i\<close> of two entries of \<open>pairs\<close> differ, so the
  comparison is decided by \<open>(rank, i)\<close> and never reaches the pair.
\<close>

definition entry_less :: "nat \<times> nat \<times> pair \<Rightarrow> nat \<times> nat \<times> pair \<Rightarrow> bool" where
  "entry_less a b =
     (fst a < fst b \<or> (fst a = fst b \<and> fst (snd a) < fst (snd b)))"

fun min_entry :: "nat \<times> nat \<times> pair \<Rightarrow> (nat \<times> nat \<times> pair) list \<Rightarrow> nat \<times> nat \<times> pair" where
  "min_entry m [] = m"
| "min_entry m (e # es) = min_entry (if entry_less e m then e else m) es"

text \<open>
  Lines 164 to 174: the scan over \<open>positions\<close> with the cursor \<open>i\<close> and the
  accumulated \<open>new_word\<close>; \<open>word[i:j]\<close> is \<open>take (j - i) (drop i word)\<close> and
  \<open>word[i:]\<close> is \<open>drop i word\<close>.
\<close>

fun merge_positions :: "symbol list \<Rightarrow> symbol \<Rightarrow> nat list \<Rightarrow> nat \<Rightarrow> symbol list
    \<Rightarrow> symbol list" where
  "merge_positions word bigram [] i new_word = new_word @ drop i word"
| "merge_positions word bigram (j # js) i new_word =
     (if j < i then merge_positions word bigram js i new_word
      else merge_positions word bigram js (j + 2)
             (new_word @ take (j - i) (drop i word) @ [bigram]))"

text \<open>Lines 159 to 175, for a non-empty \<open>pairs\<close>: one pass of the loop body.\<close>

definition merge_pass :: "symbol list \<Rightarrow> (nat \<times> nat \<times> pair) list \<Rightarrow> symbol list" where
  "merge_pass word pairs =
     (let bigram = snd (snd (min_entry (hd pairs) (tl pairs)));
          positions = map (\<lambda>e. fst (snd e)) (filter (\<lambda>e. snd (snd e) = bigram) pairs)
      in merge_positions word (fst bigram @ snd bigram) positions 0 [])"

lemma symbol_pairs_subset:
  "snd ` set (fst (symbol_pairs bpe_codes dropout rng k ps)) \<subseteq> set ps"
proof (induction ps arbitrary: k)
  case Nil
  show ?case by simp
next
  case (Cons a ps)
  obtain j q where a: "a = (j, q)" by (cases a)
  have "snd ` set (fst (symbol_pairs bpe_codes dropout rng k ps)) \<subseteq> set ps"
    and "snd ` set (fst (symbol_pairs bpe_codes dropout rng (Suc k) ps)) \<subseteq> set ps"
    by (rule Cons.IH)+
  then show ?case
    unfolding a image_subset_iff by (auto split: option.splits prod.splits)
qed

lemma symbol_pairs_index:
  "(r, i, p) \<in> set (fst (symbol_pairs bpe_codes dropout rng k ps)) \<Longrightarrow> (i, p) \<in> set ps"
  using symbol_pairs_subset [of bpe_codes dropout rng k ps] by force

lemma min_entry_mem: "min_entry m es \<in> insert m (set es)"
  by (induction es arbitrary: m) auto

lemma merge_positions_length_le:
  "\<forall>j \<in> set js. j + 2 \<le> length word \<Longrightarrow> i \<le> length word \<Longrightarrow>
   length (merge_positions word bigram js i new_word) \<le> length new_word + (length word - i)"
proof (induction js arbitrary: i new_word)
  case Nil
  then show ?case by simp
next
  case (Cons j js)
  show ?case
  proof (cases "j < i")
    case True
    with Cons show ?thesis by simp
  next
    case False
    have "length (merge_positions word bigram js (j + 2)
            (new_word @ take (j - i) (drop i word) @ [bigram]))
          \<le> length (new_word @ take (j - i) (drop i word) @ [bigram]) + (length word - (j + 2))"
      using Cons.prems by (intro Cons.IH) auto
    with False Cons.prems show ?thesis by auto
  qed
qed

lemma merge_pass_shorter:
  assumes "pairs \<noteq> []" and "\<forall>e \<in> set pairs. fst (snd e) + 2 \<le> length word"
  shows "length (merge_pass word pairs) < length word"
proof -
  define bigram where "bigram = snd (snd (min_entry (hd pairs) (tl pairs)))"
  define positions where
    "positions = map (\<lambda>e. fst (snd e)) (filter (\<lambda>e. snd (snd e) = bigram) pairs)"
  have "min_entry (hd pairs) (tl pairs) \<in> set pairs"
    using min_entry_mem [of "hd pairs" "tl pairs"] assms(1)
    by (cases pairs) auto
  then have "positions \<noteq> []"
    by (auto simp: positions_def bigram_def filter_empty_conv)
  then obtain j js where pos: "positions = j # js"
    by (cases positions) auto
  have bound: "\<forall>j \<in> set positions. j + 2 \<le> length word"
    using assms(2) by (auto simp: positions_def)
  have "length (merge_positions word (fst bigram @ snd bigram) js (j + 2)
          ([] @ take (j - 0) (drop 0 word) @ [fst bigram @ snd bigram]))
        \<le> length ([] @ take (j - 0) (drop 0 word) @ [fst bigram @ snd bigram])
            + (length word - (j + 2))"
    using bound pos by (intro merge_positions_length_le) auto
  moreover have "j + 2 \<le> length word"
    using bound pos by simp
  ultimately have "length (merge_positions word (fst bigram @ snd bigram) positions 0 [])
      < length word"
    by (simp add: pos)
  then show ?thesis
    by (simp add: merge_pass_def Let_def bigram_def positions_def)
qed

lemma enumerate_zip_bound:
  "(i, p) \<in> set (enumerate 0 (zip word (tl word))) \<Longrightarrow> i + 2 \<le> length word"
  by (auto simp: in_set_enumerate_eq)

text \<open>
  The \<open>while len(word) > 1\<close> loop of lines 150 to 175.  Every pass that does not leave
  the loop makes the word shorter, which is the termination argument.
\<close>

function merge_loop :: "codes \<Rightarrow> real \<Rightarrow> (nat \<Rightarrow> real) \<Rightarrow> symbol list \<Rightarrow> nat
    \<Rightarrow> symbol list \<times> nat" where
  "merge_loop bpe_codes dropout rng word k =
     (if length word > 1 then
        (let r = symbol_pairs bpe_codes dropout rng k (enumerate 0 (zip word (tl word)))
         in if fst r = [] then (word, snd r)
            else merge_loop bpe_codes dropout rng (merge_pass word (fst r)) (snd r))
      else (word, k))"
  by pat_completeness auto
termination
proof (relation "measure (\<lambda>(bpe_codes, dropout, rng, word, k). length word)", goal_cases)
  case 1
  show ?case by simp
next
  case (2 bpe_codes dropout rng word k r)
  have "\<forall>e \<in> set (fst r). fst (snd e) + 2 \<le> length word"
  proof
    fix e assume "e \<in> set (fst r)"
    then have "(fst e, fst (snd e), snd (snd e)) \<in> set (fst r)" by simp
    then have "(fst (snd e), snd (snd e)) \<in> set (enumerate 0 (zip word (tl word)))"
      unfolding 2(2) by (rule symbol_pairs_index)
    then show "fst (snd e) + 2 \<le> length word" by (rule enumerate_zip_bound)
  qed
  with 2(3) have "length (merge_pass word (fst r)) < length word"
    by (intro merge_pass_shorter) auto
  then show ?case by simp
qed

declare merge_loop.simps [simp del]

section \<open>Vocabulary closure\<close>

text \<open>
  \<open>recursive_split\<close> is a generator; its value here is the list of the items it
  yields, in order, when it finishes, and \<open>None\<close> when the recursion never ends.
  The \<open>try\<close> block fails exactly when the key is absent from the dict;
  \<open>right[:-4]\<close> is \<open>take (length right - 4) right\<close>.  \<open>vocab\<close> is only asked for
  membership.
\<close>

partial_function (option) recursive_split :: "symbol \<Rightarrow> rcodes \<Rightarrow> string set \<Rightarrow> string
    \<Rightarrow> bool \<Rightarrow> symbol list option" where
  "recursive_split segment bpe_codes vocab separator final =
     (case (if final then
              (case bpe_codes (segment @ eow) of
                 None \<Rightarrow> None
               | Some (left, right) \<Rightarrow> Some (left, take (length right - 4) right))
            else bpe_codes segment) of
        None \<Rightarrow> Some [segment]
      | Some (left, right) \<Rightarrow>
          do {
            ls \<leftarrow> (if left @ separator \<in> vocab then Some [left]
                  else recursive_split left bpe_codes vocab separator False);
            rs \<leftarrow> (if (final \<and> right \<in> vocab) \<or> (\<not> final \<and> right @ separator \<in> vocab)
                  then Some [right]
                  else recursive_split right bpe_codes vocab separator final);
            Some (ls @ rs)
          })"

text \<open>The loop of \<open>check_vocab_and_split\<close> over \<open>orig[:-1]\<close>, with the list \<open>out\<close>.\<close>

fun check_vocab_loop :: "symbol list \<Rightarrow> rcodes \<Rightarrow> string set \<Rightarrow> string \<Rightarrow> symbol list
    \<Rightarrow> symbol list option" where
  "check_vocab_loop [] bpe_codes vocab separator out = Some out"
| "check_vocab_loop (segment # rest) bpe_codes vocab separator out =
     (if segment @ separator \<in> vocab
      then check_vocab_loop rest bpe_codes vocab separator (out @ [segment])
      else (case recursive_split segment bpe_codes vocab separator False of
              None \<Rightarrow> None
            | Some ys \<Rightarrow> check_vocab_loop rest bpe_codes vocab separator (out @ ys)))"

text \<open>\<open>orig[-1]\<close> raises \<open>IndexError\<close> on the empty tuple, after the (empty) loop.\<close>

definition check_vocab_and_split :: "symbol list \<Rightarrow> rcodes \<Rightarrow> string set \<Rightarrow> string
    \<Rightarrow> (error + symbol list) option" where
  "check_vocab_and_split orig bpe_codes vocab separator =
     (case check_vocab_loop (butlast orig) bpe_codes vocab separator [] of
        None \<Rightarrow> None
      | Some out \<Rightarrow>
          (if orig = [] then Some (Inl IndexError)
           else if last orig \<in> vocab then Some (Inr (out @ [last orig]))
           else (case recursive_split (last orig) bpe_codes vocab separator True of
                   None \<Rightarrow> None
                 | Some ys \<Rightarrow> Some (Inr (out @ ys)))))"

section \<open>\<open>encode\<close>\<close>

text \<open>
  Lines 143 to 148: the symbols of the word under the two end-of-word conventions.
  \<open>orig[-1]\<close> raises \<open>IndexError\<close> on the empty string.
\<close>

definition initial_word :: "string \<Rightarrow> int list \<Rightarrow> error + symbol list" where
  "initial_word orig version =
     (if version = [0, 1] then Inr (map (\<lambda>c. [c]) orig @ [eow])
      else if version = [0, 2] then
        (if orig = [] then Inl IndexError
         else Inr (map (\<lambda>c. [c]) (butlast orig) @ [[last orig] @ eow]))
      else Inl NotImplementedError)"

text \<open>Lines 177 to 181: the end-of-word symbol is taken off the last symbol.\<close>

definition strip_eow :: "symbol list \<Rightarrow> error + symbol list" where
  "strip_eow word =
     (if word = [] then Inl IndexError
      else if last word = eow then Inr (butlast word)
      else if suffix eow (last word)
        then Inr (butlast word @ [take (length (last word) - 4) (last word)])
      else Inr word)"

text \<open>
  Lines 136 to 188, what \<open>encode\<close> does when the cache is not read.
  \<open>glossaries_regex\<close> is \<open>None\<close> or a compiled pattern, of which only
  \<open>match(orig)\<close> is used: it is the predicate telling whether the pattern matches.
  \<open>vocab\<close> is \<open>None\<close> or a set; \<open>if vocab\<close> holds for a non-empty set.
  The result is the returned sequence, the cache after the call and the number of draws
  made; \<open>None\<close> stands for a call that never returns.
\<close>

definition encode_uncached :: "string \<Rightarrow> codes \<Rightarrow> rcodes \<Rightarrow> string set option \<Rightarrow> string
    \<Rightarrow> int list \<Rightarrow> cache \<Rightarrow> (string \<Rightarrow> bool) option \<Rightarrow> real \<Rightarrow> (nat \<Rightarrow> real) \<Rightarrow> nat
    \<Rightarrow> (error + pyseq \<times> cache \<times> nat) option" where
  "encode_uncached orig bpe_codes bpe_codes_reverse vocab separator version cache
       glossaries_regex dropout rng k =
     (if (case glossaries_regex of None \<Rightarrow> False | Some re \<Rightarrow> re orig)
      then Some (Inr (PyTuple [orig], cache(orig \<mapsto> PyTuple [orig]), k))
      else if length orig = 1 then Some (Inr (PyStr orig, cache, k))
      else
        (case initial_word orig version of
           Inl e \<Rightarrow> Some (Inl e)
         | Inr word0 \<Rightarrow>
             (case merge_loop bpe_codes dropout rng word0 k of
                (word1, k') \<Rightarrow>
                  (case strip_eow word1 of
                     Inl e \<Rightarrow> Some (Inl e)
                   | Inr word \<Rightarrow>
                       (case (case vocab of None \<Rightarrow> None
                                | Some v \<Rightarrow> if v = {} then None else Some v) of
                          None \<Rightarrow> Some (Inr (PyTuple word, cache(orig \<mapsto> PyTuple word), k'))
                        | Some v \<Rightarrow>
                            (case check_vocab_and_split word bpe_codes_reverse v separator of
                               None \<Rightarrow> None
                             | Some (Inl e) \<Rightarrow> Some (Inl e)
                             | Some (Inr out) \<Rightarrow>
                                 Some (Inr (PyList out, cache(orig \<mapsto> PyList out), k'))))))))"

text \<open>Lines 133 and 134 in front: the cache is read only when \<open>dropout\<close> is \<open>0\<close>.\<close>

definition encode :: "string \<Rightarrow> codes \<Rightarrow> rcodes \<Rightarrow> string set option \<Rightarrow> string
    \<Rightarrow> int list \<Rightarrow> cache \<Rightarrow> (string \<Rightarrow> bool) option \<Rightarrow> real \<Rightarrow> (nat \<Rightarrow> real) \<Rightarrow> nat
    \<Rightarrow> (error + pyseq \<times> cache \<times> nat) option" where
  "encode orig bpe_codes bpe_codes_reverse vocab separator version cache
       glossaries_regex dropout rng k =
     (case (if dropout = 0 then cache orig else None) of
        Some hit \<Rightarrow> Some (Inr (hit, cache, k))
      | None \<Rightarrow>
          encode_uncached orig bpe_codes bpe_codes_reverse vocab separator version cache
            glossaries_regex dropout rng k)"

section \<open>Python string operations\<close>

text \<open>
  A \<open>char\<close> stands for one code point of a Python \<open>str\<close> (the code points below 256).
  \<open>crnlsp\<close> is the literal \<open>'\r\n '\<close> that the source strips by.
\<close>

definition crnlsp :: string where
  "crnlsp = [CHR 0x0D, CHR 0x0A, CHR '' '']"

definition py_lstrip :: "string \<Rightarrow> string \<Rightarrow> string" where
  "py_lstrip chars s = dropWhile (\<lambda>c. c \<in> set chars) s"

definition py_rstrip :: "string \<Rightarrow> string \<Rightarrow> string" where
  "py_rstrip chars s = rev (dropWhile (\<lambda>c. c \<in> set chars) (rev s))"

definition py_strip :: "string \<Rightarrow> string \<Rightarrow> string" where
  "py_strip chars s = py_rstrip chars (py_lstrip chars s)"

text \<open>\<open>s.split(sep)\<close> for a separator of one character: never the empty list.\<close>

fun py_split :: "char \<Rightarrow> string \<Rightarrow> string list" where
  "py_split sep [] = [[]]"
| "py_split sep (c # cs) =
     (if c = sep then [] # py_split sep cs
      else (case py_split sep cs of
              [] \<Rightarrow> [[c]]
            | w # ws \<Rightarrow> (c # w) # ws))"

fun py_join :: "string \<Rightarrow> string list \<Rightarrow> string" where
  "py_join sep [] = []"
| "py_join sep [x] = x"
| "py_join sep (x # y # ys) = x @ sep @ py_join sep (y # ys)"

text \<open>\<open>s.split()\<close>: the maximal runs of characters that are not whitespace.\<close>

definition py_isspace :: "char \<Rightarrow> bool" where
  "py_isspace c = (c \<in> set [CHR 0x09, CHR 0x0A, CHR 0x0B, CHR 0x0C, CHR 0x0D, CHR 0x1C,
     CHR 0x1D, CHR 0x1E, CHR 0x1F, CHR 0x20, CHR 0x85, CHR 0xA0])"

fun py_split_ws :: "string \<Rightarrow> string \<Rightarrow> string list" where
  "py_split_ws tok [] = (if tok = [] then [] else [tok])"
| "py_split_ws tok (c # cs) =
     (if py_isspace c then (if tok = [] then py_split_ws [] cs else tok # py_split_ws [] cs)
      else py_split_ws (tok @ [c]) cs)"

text \<open>
  \<open>int(x)\<close> for a string without whitespace: an optional sign, then decimal digits,
  where single underscores may stand between digits; \<open>None\<close> is \<open>ValueError\<close>.
\<close>

definition is_digit :: "char \<Rightarrow> bool" where
  "is_digit c = (48 \<le> (of_char c :: nat) \<and> (of_char c :: nat) \<le> 57)"

fun parse_digits :: "int \<Rightarrow> bool \<Rightarrow> string \<Rightarrow> int option" where
  "parse_digits acc after_digit [] = (if after_digit then Some acc else None)"
| "parse_digits acc after_digit (c # cs) =
     (if is_digit c then parse_digits (10 * acc + (of_char c - 48)) True cs
      else if c = CHR ''_'' \<and> after_digit then parse_digits acc False cs
      else None)"

definition py_int :: "string \<Rightarrow> int option" where
  "py_int s =
     (case s of
        [] \<Rightarrow> None
      | c # cs \<Rightarrow>
          if c = CHR ''-'' then map_option uminus (parse_digits 0 False cs)
          else if c = CHR ''+'' then parse_digits 0 False cs
          else parse_digits 0 False s)"

section \<open>Glossaries\<close>

text \<open>
  A glossary is a regular expression.  The model covers the glossaries that are plain
  text (no metacharacter of \<open>re\<close>), for which the three calls of \<open>isolate_glossary\<close>
  are:
  \<^item> \<open>re.match('^' + glossary + '$', word)\<close>: the word is the glossary, or the glossary
    followed by one newline (\<open>$\<close> also matches before a final newline);
  \<^item> \<open>re.search(glossary, word)\<close>: the glossary occurs in the word;
  \<^item> \<open>re.split('(glossary)', word)\<close>: the word cut at the occurrences of the glossary,
    found from left to right without overlap, the pieces between them alternating with
    the glossary itself; with an empty glossary (Python 3.7 and later) every position
    is an occurrence.
\<close>

definition re_match_whole :: "string \<Rightarrow> string \<Rightarrow> bool" where
  "re_match_whole glossary word = (word = glossary \<or> word = glossary @ [CHR 0x0A])"

definition re_search :: "string \<Rightarrow> string \<Rightarrow> bool" where
  "re_search glossary word = sublist glossary word"

fun re_split_scan :: "string \<Rightarrow> nat \<Rightarrow> string \<Rightarrow> string \<Rightarrow> string list" where
  "re_split_scan glossary inside piece [] = [piece]"
| "re_split_scan glossary inside piece (c # cs) =
     (if inside > 0 then re_split_scan glossary (inside - 1) piece cs
      else if prefix glossary (c # cs)
        then piece # glossary # re_split_scan glossary (length glossary - 1) [] cs
      else re_split_scan glossary 0 (piece @ [c]) cs)"

definition re_split_group :: "string \<Rightarrow> string \<Rightarrow> string list" where
  "re_split_group glossary word =
     (if glossary = [] then [] # concat (map (\<lambda>c. [[], [c]]) word) @ [[], []]
      else re_split_scan glossary 0 [] word)"

definition isolate_glossary :: "string \<Rightarrow> string \<Rightarrow> string list" where
  "isolate_glossary word glossary =
     (if re_match_whole glossary word \<or> \<not> re_search glossary word then [word]
      else
        (let segments = re_split_group glossary word;
             ending = last segments;
             segments = filter (\<lambda>s. s \<noteq> []) (butlast segments)
         in if ending \<noteq> [] then segments @ [py_strip crnlsp ending] else segments))"

text \<open>\<open>BPE._isolate_glossaries\<close>: the loop over \<open>self.glossaries\<close>.\<close>

fun isolate_glossaries :: "string list \<Rightarrow> string list \<Rightarrow> string list" where
  "isolate_glossaries [] word_segments = word_segments"
| "isolate_glossaries (gloss # rest) word_segments =
     isolate_glossaries rest
       (concat (map (\<lambda>segment. isolate_glossary segment gloss) word_segments))"

section \<open>The tokenizer \<open>BPE\<close>\<close>

text \<open>
  A Python dict keeps its keys in the order of their first insertion and the value of
  the last one: \<open>py_dict\<close> builds it from the list of key-value pairs.
\<close>

definition py_dict :: "('k \<times> 'v) list \<Rightarrow> ('k \<times> 'v) list" where
  "py_dict kvs = foldl (\<lambda>d kv. AList.update (fst kv) (snd kv) d) [] kvs"

record BPE =
  version :: "int list"
  bpe_codes :: "(pair \<times> nat) list"
  bpe_codes_reverse :: "(string \<times> pair) list"
  separator :: string
  vocab :: "string set option"
  glossaries :: "string list"
  glossaries_regex :: "(string \<Rightarrow> bool) option"
  cache :: "string \<rightharpoonup> pyseq"

text \<open>
  \<open>codes\<close> is a text stream whose lines end with a newline character (an
  \<open>io.StringIO\<close>, or a file opened in text mode); it is given by its whole text.
  \<open>readline\<close> gives the first line with its newline, and what follows it.
\<close>

definition readline :: "string \<Rightarrow> string \<times> string" where
  "readline s =
     (case dropWhile (\<lambda>c. c \<noteq> CHR 0x0A) s of
        [] \<Rightarrow> (s, [])
      | nl # rest \<Rightarrow> (takeWhile (\<lambda>c. c \<noteq> CHR 0x0A) s @ [nl], rest))"

text \<open>
  \<open>re.sub(r'(\.0+)*$', '', token)\<close> removes the longest end of the token made of groups
  of a dot and zeros.  \<open>strip_zero_groups\<close> reads the token backwards; \<open>zeros\<close> are the
  zeros read since the last group.
\<close>

fun strip_zero_groups :: "string \<Rightarrow> string \<Rightarrow> string" where
  "strip_zero_groups zeros [] = zeros"
| "strip_zero_groups zeros (c # cs) =
     (if c = CHR ''0'' then strip_zero_groups (zeros @ [c]) cs
      else if c = CHR ''.'' \<and> zeros \<noteq> [] then strip_zero_groups [] cs
      else zeros @ c # cs)"

text \<open>Line 23: the version tuple of the header line; \<open>int\<close> may raise \<open>ValueError\<close>.\<close>

definition parse_version :: "string \<Rightarrow> error + int list" where
  "parse_version firstline =
     (case py_split_ws [] firstline of
        [] \<Rightarrow> Inl IndexError
      | t # ts \<Rightarrow>
          (let parts = map py_int
                 (py_split (CHR ''.'') (rev (strip_zero_groups [] (rev (last (t # ts))))))
           in if list_all (\<lambda>x. x \<noteq> None) parts then Inr (map the parts)
              else Inl ValueError))"

text \<open>
  Lines 32 to 36: the first item that is not a pair ends the program; the error
  carries what was written to \<open>stderr\<close>, the line number \<open>i + offset\<close> and
  \<open>' '.join(item)\<close>.
\<close>

fun check_items :: "nat \<Rightarrow> nat \<Rightarrow> string list list \<Rightarrow> error option" where
  "check_items i offset [] = None"
| "check_items i offset (item # rest) =
     (if length item \<noteq> 2 then Some (SysExit (i + offset) (py_join '' '' item))
      else check_items (Suc i) offset rest)"

text \<open>
  Lines 17 to 27: whether the first line is a version header, the version, the number
  \<open>offset\<close> of the first merge line, and the lines that \<open>codes.read()\<close> then gives,
  without the final newlines and split at the newlines.
\<close>

definition has_header :: "string \<Rightarrow> bool" where
  "has_header codes = prefix ''#version:'' (fst (readline codes))"

definition read_version :: "string \<Rightarrow> error + int list" where
  "read_version codes =
     (if has_header codes then parse_version (fst (readline codes)) else Inr [0, 1])"

definition line_offset :: "string \<Rightarrow> nat" where
  "line_offset codes = (if has_header codes then 2 else 1)"

definition merge_lines :: "string \<Rightarrow> string list" where
  "merge_lines codes =
     py_split (CHR 0x0A)
       (py_rstrip [CHR 0x0A] (if has_header codes then snd (readline codes) else codes))"

text \<open>Lines 29 and 30: the lines kept by \<open>merges\<close>, each stripped and split at the spaces.\<close>

definition read_items :: "string list \<Rightarrow> int \<Rightarrow> string list list" where
  "read_items lines merges =
     map (\<lambda>(n, item). py_split (CHR '' '') (py_strip crnlsp item))
       (filter (\<lambda>(n, item). int n < merges \<or> merges = - 1) (enumerate 0 lines))"

definition BPE_init :: "string \<Rightarrow> int \<Rightarrow> string \<Rightarrow> string set option \<Rightarrow> string list option
    \<Rightarrow> error + BPE" where
  "BPE_init codes merges sep voc gloss =
     (case read_version codes of
        Inl e \<Rightarrow> Inl e
      | Inr ver \<Rightarrow>
          (let items = read_items (merge_lines codes) merges
           in case check_items 0 (line_offset codes) items of
                Some e \<Rightarrow> Inl e
              | None \<Rightarrow>
                  (let codes_dict = py_dict (rev (map (\<lambda>(i, code). ((code ! 0, code ! 1), i))
                                                  (enumerate 0 items)));
                       reverse_dict = py_dict (map (\<lambda>(pair, i). (fst pair @ snd pair, pair))
                                                 codes_dict);
                       gl = (case gloss of None \<Rightarrow> [] | Some gs \<Rightarrow> gs)
                   in Inr \<lparr> version = ver,
                            bpe_codes = codes_dict,
                            bpe_codes_reverse = reverse_dict,
                            separator = sep,
                            vocab = voc,
                            glossaries = gl,
                            glossaries_regex =
                              (if gl = [] then None
                               else Some (\<lambda>w. list_ex (\<lambda>g. re_match_whole g w) gl)),
                            cache = Map.empty \<rparr>)))"

text \<open>
  \<open>segment_tokens\<close>, lines 86 to 95: the segments of one word are encoded in turn, each
  call with the cache the call before left; \<open>new_word\<close> collects the items.
\<close>

fun encode_segments :: "BPE \<Rightarrow> real \<Rightarrow> (nat \<Rightarrow> real) \<Rightarrow> string list \<Rightarrow> symbol list \<Rightarrow> nat
    \<Rightarrow> (error + symbol list \<times> BPE \<times> nat) option" where
  "encode_segments bpe dropout rng [] new_word k = Some (Inr (new_word, bpe, k))"
| "encode_segments bpe dropout rng (segment # rest) new_word k =
     (case encode segment (map_of (bpe_codes bpe)) (map_of (bpe_codes_reverse bpe)) (vocab bpe)
             (separator bpe) (version bpe) (cache bpe) (glossaries_regex bpe) dropout rng k of
        None \<Rightarrow> None
      | Some (Inl e) \<Rightarrow> Some (Inl e)
      | Some (Inr (r, c, k')) \<Rightarrow>
          encode_segments (bpe\<lparr>cache := c\<rparr>) dropout rng rest (new_word @ items r) k')"

text \<open>The loop of \<open>segment_tokens\<close>; \<open>new_word[-1]\<close> raises on an empty \<open>new_word\<close>.\<close>

fun segment_tokens :: "BPE \<Rightarrow> string list \<Rightarrow> real \<Rightarrow> (nat \<Rightarrow> real) \<Rightarrow> nat \<Rightarrow> string list
    \<Rightarrow> (error + string list \<times> BPE \<times> nat) option" where
  "segment_tokens bpe [] dropout rng k output = Some (Inr (output, bpe, k))"
| "segment_tokens bpe (word # tokens) dropout rng k output =
     (if word = [] then segment_tokens bpe tokens dropout rng k output
      else
        (case encode_segments bpe dropout rng (isolate_glossaries (glossaries bpe) [word]) [] k of
           None \<Rightarrow> None
         | Some (Inl e) \<Rightarrow> Some (Inl e)
         | Some (Inr (new_word, bpe', k')) \<Rightarrow>
             (if new_word = [] then Some (Inl IndexError)
              else segment_tokens bpe' tokens dropout rng k'
                     (output @ map (\<lambda>item. item @ separator bpe) (butlast new_word)
                        @ [last new_word]))))"

definition segment :: "BPE \<Rightarrow> string \<Rightarrow> real \<Rightarrow> (nat \<Rightarrow> real) \<Rightarrow> nat
    \<Rightarrow> (error + string \<times> BPE \<times> nat) option" where
  "segment bpe sentence dropout rng k =
     (case segment_tokens bpe (py_split (CHR '' '') (py_strip crnlsp sentence)) dropout rng k [] of
        None \<Rightarrow> None
      | Some (Inl e) \<Rightarrow> Some (Inl e)
      | Some (Inr (segments, bpe', k')) \<Rightarrow> Some (Inr (py_join '' '' segments, bpe', k')))"

text \<open>\<open>line[:n]\<close> is \<open>take n line\<close>; \<open>line[-n:]\<close>, for \<open>0 < n\<close>, is the last \<open>n\<close> characters.\<close>

definition process_line :: "BPE \<Rightarrow> string \<Rightarrow> real \<Rightarrow> (nat \<Rightarrow> real) \<Rightarrow> nat
    \<Rightarrow> (error + string \<times> BPE \<times> nat) option" where
  "process_line bpe line dropout rng k =
     (let leading_whitespace = length line - length (py_lstrip crnlsp line);
          out = (if leading_whitespace \<noteq> 0 then take leading_whitespace line else [])
      in case segment bpe line dropout rng k of
           None \<Rightarrow> None
         | Some (Inl e) \<Rightarrow> Some (Inl e)
         | Some (Inr (segmented, bpe', k')) \<Rightarrow>
             (let out = out @ segmented;
                  trailing_whitespace = length line - length (py_rstrip crnlsp line)
              in Some (Inr (if trailing_whitespace \<noteq> 0 \<and> trailing_whitespace \<noteq> length line
                            then out @ drop (length line - trailing_whitespace) line
                            else out,
                            bpe', k'))))"

text \<open>A tokenizer with an empty merge table and no vocabulary or glossary.\<close>

definition plain_bpe :: BPE where
  "plain_bpe = \<lparr> version = [0, 1], bpe_codes = [], bpe_codes_reverse = [],
     separator = ''@@'', vocab = None, glossaries = [], glossaries_regex = None,
     cache = Map.empty \<rparr>"

text \<open>
  The tokenizer that \<open>BPE_init\<close> builds from the two merge lines \<open>a </w>\<close> and
  \<open>< /w>\<close> with the vocabulary \<open>{x}\<close>.
\<close>

definition loop_bpe :: BPE where
  "loop_bpe = \<lparr> version = [0, 1],
     bpe_codes = [((''<'', ''/w>''), 1), ((''a'', ''</w>''), 0)],
     bpe_codes_reverse = [(''</w>'', (''<'', ''/w>'')), (''a</w>'', (''a'', ''</w>''))],
     separator = ''@@'', vocab = Some {''x''}, glossaries = [], glossaries_regex = None,
     cache = Map.empty \<rparr>"

text \<open>A source of draws that are all \<open>0\<close>: with it every candidate pair is dropped.\<close>

definition zero_draws :: "nat \<Rightarrow> real" where
  "zero_draws n = 0"

text \<open>What a call of \<open>encode\<close> hands back apart from the cache.\<close>

definition result_of :: "(error + pyseq \<times> (string \<rightharpoonup> pyseq) \<times> nat) option
    \<Rightarrow> (error + pyseq \<times> nat) option" where
  "result_of x = map_option (map_sum id (\<lambda>(r, c, k). (r, k))) x"

section \<open>Properties of \<open>encode\<close>\<close>

text \<open>
  The cache of a tokenizer starts empty and is written by \<open>encode\<close> only.  For the
  one-character keys this gives the invariant below: such a key is stored only by the
  glossary branch, with the one-element tuple of the word.
\<close>

definition cache_single_ok :: "cache \<Rightarrow> bool" where
  "cache_single_ok c = (\<forall>w v. c w = Some v \<longrightarrow> length w = 1 \<longrightarrow> items v = [w])"

lemma cache_single_ok_empty: "cache_single_ok Map.empty"
  by (simp add: cache_single_ok_def)

lemma encode_uncached_cache:
  assumes "encode_uncached w bc br voc sep ver c gre d rng k = Some (Inr (r, c', k'))"
  shows "c' = c \<or> (c' = c(w \<mapsto> r) \<and> (length w = 1 \<longrightarrow> r = PyTuple [w]))"
  using assms unfolding encode_uncached_def
  by (auto split: if_splits sum.splits prod.splits option.splits)

lemma encode_cache:
  assumes "encode w bc br voc sep ver c gre d rng k = Some (Inr (r, c', k'))"
  shows "c' = c \<or> (c' = c(w \<mapsto> r) \<and> (length w = 1 \<longrightarrow> r = PyTuple [w]))"
proof (cases "if d = 0 then c w else None")
  case None
  with assms have "encode_uncached w bc br voc sep ver c gre d rng k = Some (Inr (r, c', k'))"
    by (simp add: encode_def)
  then show ?thesis by (rule encode_uncached_cache)
next
  case (Some hit)
  with assms show ?thesis by (simp add: encode_def)
qed

lemma encode_preserves_single_ok:
  assumes "encode w bc br voc sep ver c gre d rng k = Some (Inr (r, c', k'))"
    and "cache_single_ok c"
  shows "cache_single_ok c'"
  using encode_cache [OF assms(1)] assms(2)
  by (auto simp: cache_single_ok_def split: if_splits)



text \<open>
  Claim C4.  For a word of one character \<open>encode\<close> returns a sequence whose only item is
  the word itself, whatever the merge table, the reverse index, the vocabulary, the
  separator, the version, the glossary pattern and the dropout are; no end-of-word
  symbol is attached.  The cache is one that \<open>encode\<close> has filled (\<open>cache_single_ok\<close>),
  and it stays so.
\<close>

theorem encode_single_character:
  assumes "length w = 1" and "cache_single_ok c"
  shows "\<exists>r c' k'. encode w bc br voc sep ver c gre d rng k = Some (Inr (r, c', k'))
           \<and> items r = [w] \<and> cache_single_ok c'"
proof -
  obtain a where w: "w = [a]"
    using assms(1) by (cases w) auto
  have "\<exists>r c' k'. encode w bc br voc sep ver c gre d rng k = Some (Inr (r, c', k'))
           \<and> items r = [w]"
  proof (cases "if d = 0 then c w else None")
    case (Some hit)
    then have "c w = Some hit" by (simp split: if_splits)
    with assms have "items hit = [w]" by (simp add: cache_single_ok_def)
    with Some show ?thesis by (simp add: encode_def)
  next
    case None
    then show ?thesis
      by (auto simp: encode_def encode_uncached_def w split: option.splits)
  qed
  then show ?thesis
    using encode_preserves_single_ok assms(2) by blast
qed

theorem encode_single_character_witness:
  "length ''a'' = 1 \<and> cache_single_ok Map.empty
   \<and> (\<exists>r c' k'. encode ''a'' [(''a'', ''a'') \<mapsto> 0] Map.empty None ''@@'' [0, 1] Map.empty None 0
                      (\<lambda>n. 0) 0 = Some (Inr (r, c', k'))
          \<and> items r = [''a''] \<and> cache_single_ok c')"
  using encode_single_character [of "''a''" Map.empty "[(''a'', ''a'') \<mapsto> 0]" Map.empty None
      "''@@''" "[0, 1]" None 0 "\<lambda>n. 0" 0]
  by (simp add: cache_single_ok_empty)

lemma symbol_pairs_no_draw: "snd (symbol_pairs bc 0 rng k ps) = k"
  by (induction ps) (auto split: option.splits prod.splits)

lemma merge_loop_no_draw: "snd (merge_loop bc 0 rng word k) = k"
proof (induction bc "0::real" rng word k rule: merge_loop.induct)
  case (1 bc rng word k)
  show ?case
    using 1 by (subst merge_loop.simps) (simp add: Let_def symbol_pairs_no_draw)
qed

lemma encode_uncached_no_dropout:
  assumes "encode_uncached w bc br voc sep ver c gre 0 rng k = Some (Inr (r, c', k'))"
  shows "k' = k \<and> (if length w = 1 \<and> \<not> (case gre of None \<Rightarrow> False | Some re \<Rightarrow> re w)
                    then c' = c \<and> r = PyStr w else c' = c(w \<mapsto> r))"
proof -
  have "snd (merge_loop bc 0 rng word0 k) = k" for word0
    by (rule merge_loop_no_draw)
  then have k: "merge_loop bc 0 rng word0 k = (word1, k1) \<Longrightarrow> k1 = k" for word0 word1 k1
    by (metis snd_conv)
  show ?thesis
    using assms unfolding encode_uncached_def
    by (auto split: if_splits sum.splits prod.splits option.splits dest: k)
qed

text \<open>
  With a dropout other than \<open>0\<close> the cache is not read: what \<open>encode\<close> returns and the
  draws it makes are the same for any two caches.
\<close>

lemma encode_dropout_ignores_cache:
  assumes "d \<noteq> 0"
  shows "result_of (encode w bc br voc sep ver c1 gre d rng k)
       = result_of (encode w bc br voc sep ver c2 gre d rng k)"
  using assms unfolding encode_def encode_uncached_def result_of_def
  by (auto split: if_splits sum.splits prod.splits option.splits)

text \<open>
  Claim C1 (the code departs from it).  With the merge \<open>(a, b)\<close>, dropout \<open>1/2\<close> and
  draws that drop every candidate, \<open>encode\<close> of \<open>ab\<close> on an empty cache returns
  \<open>(a, b)\<close> and stores it under \<open>ab\<close>: line 187 writes the cache whatever the dropout
  is.  A later call without dropout is then served that stored value, where the same
  call on an empty cache returns \<open>(ab,)\<close>.
\<close>

theorem encode_dropout_writes_cache:
  "encode ''ab'' [(''a'', ''b'') \<mapsto> 0] Map.empty None ''@@'' [0, 1] Map.empty None (1/2)
      zero_draws 0
     = Some (Inr (PyTuple [''a'', ''b''], [''ab'' \<mapsto> PyTuple [''a'', ''b'']], 2))
   \<and> encode ''ab'' [(''a'', ''b'') \<mapsto> 0] Map.empty None ''@@'' [0, 1]
        [''ab'' \<mapsto> PyTuple [''a'', ''b'']] None 0 zero_draws 2
     = Some (Inr (PyTuple [''a'', ''b''], [''ab'' \<mapsto> PyTuple [''a'', ''b'']], 2))
   \<and> encode ''ab'' [(''a'', ''b'') \<mapsto> 0] Map.empty None ''@@'' [0, 1] Map.empty None 0
        zero_draws 0
     = Some (Inr (PyTuple [''ab''], [''ab'' \<mapsto> PyTuple [''ab'']], 0))"
  by (simp add: encode_def encode_uncached_def initial_word_def merge_loop.simps strip_eow_def
      eow_def zero_draws_def suffix_to_prefix merge_pass_def entry_less_def)

text \<open>
  Claim C3, as stated, fails for a word of one character: the length-1 return comes
  before the cache is written, so after the call the cache holds no entry for the word.
\<close>

theorem encode_single_character_not_cached:
  "encode ''a'' Map.empty Map.empty None ''@@'' [0, 1] Map.empty None 0 zero_draws 0
     = Some (Inr (PyStr ''a'', Map.empty, 0))
   \<and> (Map.empty :: string \<rightharpoonup> pyseq) ''a'' \<noteq> Some (PyStr ''a'')"
  by (simp add: encode_def encode_uncached_def)

text \<open>
  Claim C3, amended.  Without dropout, when a call of \<open>encode\<close> returns, the same call
  made again on the cache it left returns the same sequence and leaves that cache as it
  is.  After the call the cache entry of the word is the returned sequence, except for
  a word of one character that was neither in the cache nor matched by the glossary
  pattern: for it the cache is unchanged.
\<close>

theorem encode_repeat_no_dropout:
  assumes "encode w bc br voc sep ver c gre 0 rng k = Some (Inr (r, c', k'))"
  shows "encode w bc br voc sep ver c' gre 0 rng k' = Some (Inr (r, c', k'))
       \<and> (if length w = 1 \<and> c w = None \<and> \<not> (case gre of None \<Rightarrow> False | Some re \<Rightarrow> re w)
          then c' = c else c' w = Some r)"
proof (cases "c w")
  case (Some hit)
  with assms show ?thesis by (simp add: encode_def)
next
  case None
  with assms have u: "encode_uncached w bc br voc sep ver c gre 0 rng k = Some (Inr (r, c', k'))"
    by (simp add: encode_def)
  note n = encode_uncached_no_dropout [OF u]
  show ?thesis
  proof (cases "length w = 1 \<and> \<not> (case gre of None \<Rightarrow> False | Some re \<Rightarrow> re w)")
    case True
    with n have "c' = c" "k' = k" by simp_all
    with assms True None show ?thesis by simp
  next
    case False
    with n have "c' = c(w \<mapsto> r)" by (simp split: if_splits)
    with False None show ?thesis by (auto simp: encode_def)
  qed
qed

theorem encode_repeat_no_dropout_witness:
  "encode ''ab'' [(''a'', ''b'') \<mapsto> 0] Map.empty None ''@@'' [0, 1] Map.empty None 0 zero_draws 0
     = Some (Inr (PyTuple [''ab''], [''ab'' \<mapsto> PyTuple [''ab'']], 0))
   \<and> encode ''ab'' [(''a'', ''b'') \<mapsto> 0] Map.empty None ''@@'' [0, 1]
        [''ab'' \<mapsto> PyTuple [''ab'']] None 0 zero_draws 0
     = Some (Inr (PyTuple [''ab''], [''ab'' \<mapsto> PyTuple [''ab'']], 0))
   \<and> [''ab'' \<mapsto> PyTuple [''ab'']] ''ab'' = Some (PyTuple [''ab''])"
proof -
  have e: "encode ''ab'' [(''a'', ''b'') \<mapsto> 0] Map.empty None ''@@'' [0, 1] Map.empty None 0
      zero_draws 0 = Some (Inr (PyTuple [''ab''], [''ab'' \<mapsto> PyTuple [''ab'']], 0))"
    by (simp add: encode_def encode_uncached_def initial_word_def merge_loop.simps strip_eow_def
        eow_def zero_draws_def suffix_to_prefix merge_pass_def entry_less_def)
  show ?thesis
    using encode_repeat_no_dropout [OF e] e by simp
qed

section \<open>Lines and glossaries\<close>

lemma lstrip_all: "set line \<subseteq> set chars \<Longrightarrow> py_lstrip chars line = []"
  by (auto simp: py_lstrip_def)

lemma rstrip_all: "set line \<subseteq> set chars \<Longrightarrow> py_rstrip chars line = []"
  by (auto simp: py_rstrip_def)

lemma strip_all: "set line \<subseteq> set chars \<Longrightarrow> py_strip chars line = []"
  by (simp add: py_strip_def lstrip_all py_rstrip_def)

lemma segment_blank:
  assumes "set line \<subseteq> set crnlsp"
  shows "segment bpe line d rng k = Some (Inr ([], bpe, k))"
  by (simp add: segment_def strip_all [OF assms])

text \<open>
  Claim C10.  A line made only of carriage returns, newlines and spaces comes back from
  \<open>process_line\<close> unchanged, with the tokenizer and the draws untouched: the whole line
  is the leading whitespace, \<open>segment\<close> gives the empty string, and the trailing
  whitespace, being the whole line, is not added again.
\<close>

theorem process_line_blank:
  assumes "set line \<subseteq> set crnlsp"
  shows "process_line bpe line d rng k = Some (Inr (line, bpe, k))"
  by (simp add: process_line_def segment_blank [OF assms] lstrip_all [OF assms]
      rstrip_all [OF assms])

theorem process_line_blank_witness:
  "set [CHR '' '', CHR 0x0D, CHR 0x0A] \<subseteq> set crnlsp
   \<and> process_line plain_bpe [CHR '' '', CHR 0x0D, CHR 0x0A] 0 zero_draws 0
       = Some (Inr ([CHR '' '', CHR 0x0D, CHR 0x0A], plain_bpe, 0))"
  using process_line_blank [of "[CHR '' '', CHR 0x0D, CHR 0x0A]" plain_bpe 0 zero_draws 0]
  by (simp add: crnlsp_def)

text \<open>The example of the docstring of \<open>isolate_glossary\<close>.\<close>

lemma isolate_glossary_docstring:
  "isolate_glossary ''1934USABUSA'' ''USA'' = [''1934'', ''USA'', ''B'', ''USA'']"
  by (simp add: isolate_glossary_def re_match_whole_def re_search_def re_split_group_def
      sublist_code(3) Let_def)

text \<open>
  Claim C5 (the code departs from it).  For the word \<open>USA\r\<close> and the glossary \<open>USA\<close>
  the text after the last match is \<open>\r\<close>.  It is tested for emptiness before it is
  stripped, so the stripped, empty string is kept as the last element.  \<open>encode\<close> of
  that empty segment raises \<open>IndexError\<close> under version 0.2.
\<close>

theorem isolate_glossary_keeps_empty_ending:
  "isolate_glossary (''USA'' @ [CHR 0x0D]) ''USA'' = [''USA'', []]
   \<and> encode [] Map.empty Map.empty None ''@@'' [0, 2] Map.empty None 0 zero_draws 0
       = Some (Inl IndexError)"
  by (simp add: isolate_glossary_def re_match_whole_def re_search_def re_split_group_def
      sublist_code(3) Let_def py_strip_def py_lstrip_def py_rstrip_def crnlsp_def
      encode_def encode_uncached_def initial_word_def)

section \<open>Construction of the tokenizer\<close>

lemmas init_defs = BPE_init_def read_version_def has_header_def readline_def parse_version_def
  line_offset_def merge_lines_def read_items_def py_strip_def py_lstrip_def py_rstrip_def
  crnlsp_def py_dict_def py_isspace_def py_int_def is_digit_def Let_def

lemma py_split_nonempty: "py_split c s \<noteq> []"
  by (induction s) (auto split: list.splits)

lemma py_join_cons: "py_join sep ((x # w) # ws) = x # py_join sep (w # ws)"
  by (cases ws) auto

lemma py_join_split: "py_join [c] (py_split c s) = s"
proof (induction s)
  case Nil
  show ?case by simp
next
  case (Cons x xs)
  obtain w ws where ws: "py_split c xs = w # ws"
    using py_split_nonempty [of c xs] by (cases "py_split c xs") auto
  show ?case
    using Cons ws by (auto simp: py_join_cons)
qed

lemma filter_enumerate_less:
  "filter (\<lambda>(n, item). n < m) (enumerate 0 ls) = enumerate 0 (take m ls)"
proof (induction ls rule: rev_induct)
  case Nil
  show ?case by simp
next
  case (snoc x xs)
  show ?case
    using snoc by (cases "length xs < m") (auto simp: enumerate_append_eq)
qed

lemma map_enumerate_snd: "map (\<lambda>(n, item). f item) (enumerate k ls) = map f ls"
  by (induction ls arbitrary: k) auto

lemma read_items_take:
  "read_items ls merges =
     map (\<lambda>item. py_split (CHR '' '') (py_strip crnlsp item))
       (take (if merges = - 1 then length ls else nat merges) ls)"
proof (cases "merges = - 1")
  case True
  then show ?thesis
    by (simp add: read_items_def map_enumerate_snd)
next
  case False
  then have "(\<lambda>(n::nat, item::string). int n < merges \<or> merges = - 1) = (\<lambda>(n, item). n < nat merges)"
    by (auto simp: fun_eq_iff)
  then show ?thesis
    using False by (simp add: read_items_def filter_enumerate_less map_enumerate_snd)
qed

lemma check_items_first:
  assumes "\<exists>item \<in> set its. length item \<noteq> 2"
  shows "\<exists>i < length its. length (its ! i) \<noteq> 2 \<and> (\<forall>j < i. length (its ! j) = 2)
           \<and> check_items i0 off its = Some (SysExit (i0 + i + off) (py_join '' '' (its ! i)))"
  using assms
proof (induction its arbitrary: i0)
  case Nil
  then show ?case by simp
next
  case (Cons it its)
  show ?case
  proof (cases "length it = 2")
    case False
    then show ?thesis by (intro exI [of _ 0]) simp
  next
    case True
    with Cons.prems have "\<exists>item \<in> set its. length item \<noteq> 2" by auto
    from Cons.IH [OF this, of "Suc i0"] obtain i where i: "i < length its" "length (its ! i) \<noteq> 2"
      "\<forall>j < i. length (its ! j) = 2"
      "check_items (Suc i0) off its = Some (SysExit (Suc i0 + i + off) (py_join '' '' (its ! i)))"
      by blast
    show ?thesis
    proof (intro exI [of _ "Suc i"] conjI allI impI)
      fix j assume "j < Suc i"
      then show "length ((it # its) ! j) = 2"
        using True i(3) by (cases j) auto
    qed (use True i in auto)
  qed
qed

lemma check_items_none:
  "check_items i0 off its = None \<longleftrightarrow> (\<forall>item \<in> set its. length item = 2)"
  by (induction its arbitrary: i0) auto


text \<open>
  Claim C7, as stated, fails in two ways.  With \<open>merges = 1\<close> only the first line is
  read, and the table is built although the second line, \<open>xyz\<close>, is a single token.
  And the lines are split at single spaces, not at whitespace: the line \<open>a b\tc\<close> has
  three whitespace-separated tokens and is taken as the pair of \<open>a\<close> and \<open>b\tc\<close>.
\<close>

theorem BPE_init_accepts_invalid_line:
  "length (py_split_ws [] ''xyz'') \<noteq> 2
   \<and> BPE_init (''a b'' @ [CHR 0x0A] @ ''xyz'' @ [CHR 0x0A]) 1 ''@@'' None None
     = Inr \<lparr> version = [0, 1], bpe_codes = [((''a'', ''b''), 0)],
             bpe_codes_reverse = [(''ab'', (''a'', ''b''))], separator = ''@@'', vocab = None,
             glossaries = [], glossaries_regex = None, cache = Map.empty \<rparr>
   \<and> length (py_split_ws [] (''a b'' @ [CHR 0x09] @ ''c'')) \<noteq> 2
   \<and> BPE_init (''a b'' @ [CHR 0x09] @ ''c'' @ [CHR 0x0A]) (- 1) ''@@'' None None
     = Inr \<lparr> version = [0, 1], bpe_codes = [((''a'', ''b'' @ [CHR 0x09] @ ''c''), 0)],
             bpe_codes_reverse =
               [(''ab'' @ [CHR 0x09] @ ''c'', (''a'', ''b'' @ [CHR 0x09] @ ''c''))],
             separator = ''@@'', vocab = None,
             glossaries = [], glossaries_regex = None, cache = Map.empty \<rparr>"
  by (simp add: init_defs)

text \<open>
  Claim C7, amended.  The lines read are those that \<open>merges\<close> keeps (all of them for
  \<open>-1\<close>, the first \<open>merges\<close> otherwise); each is stripped of carriage returns, newlines
  and spaces at both ends and split at every single space.  When one of them does not
  give exactly two items, construction fails: with the error of the version header when
  that does not parse, and otherwise with the number in the file and the stripped text
  of the first such line.
\<close>

theorem BPE_init_invalid_line:
  assumes "\<exists>item \<in> set (read_items (merge_lines codes) merges). length item \<noteq> 2"
  shows "case read_version codes of
           Inl e \<Rightarrow> BPE_init codes merges sep voc gloss = Inl e
         | Inr ver \<Rightarrow>
             (\<exists>i < length (merge_lines codes).
                (merges = - 1 \<or> int i < merges)
                \<and> length (py_split (CHR '' '') (py_strip crnlsp (merge_lines codes ! i))) \<noteq> 2
                \<and> (\<forall>j < i. length (py_split (CHR '' '') (py_strip crnlsp (merge_lines codes ! j))) = 2)
                \<and> BPE_init codes merges sep voc gloss
                    = Inl (SysExit (i + line_offset codes) (py_strip crnlsp (merge_lines codes ! i))))"
proof (cases "read_version codes")
  case (Inl e)
  then show ?thesis by (simp add: BPE_init_def)
next
  case (Inr ver)
  define ls where "ls = merge_lines codes"
  define m where "m = (if merges = - 1 then length ls else nat merges)"
  define f where "f = (\<lambda>item. py_split (CHR '' '') (py_strip crnlsp item))"
  have items: "read_items ls merges = map f (take m ls)"
    unfolding m_def f_def by (rule read_items_take)
  from check_items_first [OF assms, of 0 "line_offset codes"]
  obtain i where i: "i < length (read_items ls merges)"
      "length (read_items ls merges ! i) \<noteq> 2"
      "\<forall>j < i. length (read_items ls merges ! j) = 2"
      "check_items 0 (line_offset codes) (read_items ls merges)
        = Some (SysExit (i + line_offset codes) (py_join '' '' (read_items ls merges ! i)))"
    unfolding ls_def by auto
  from i(1) have im: "i < m" "i < length ls"
    by (simp_all add: items)
  then have nth: "read_items ls merges ! j = f (ls ! j)" if "j \<le> i" for j
    using that by (simp add: items)
  have lim: "merges = - 1 \<or> int i < merges"
    using im(1) by (auto simp: m_def split: if_splits)
  have "BPE_init codes merges sep voc gloss = Inl (SysExit (i + line_offset codes) (py_strip crnlsp (ls ! i)))"
    using Inr i(4) by (simp add: BPE_init_def ls_def [symmetric] nth f_def py_join_split)
  moreover have "length (f (ls ! i)) \<noteq> 2"
    using i(2) by (simp add: nth)
  moreover have "\<forall>j < i. length (f (ls ! j)) = 2"
    using i(3) by (simp add: nth)
  ultimately show ?thesis
    using Inr im(2) lim unfolding ls_def f_def by auto
qed

theorem BPE_init_invalid_line_witness:
  "(\<exists>item \<in> set (read_items (merge_lines (''a b'' @ [CHR 0x0A] @ ''xyz'' @ [CHR 0x0A])) (- 1)).
      length item \<noteq> 2)
   \<and> BPE_init (''a b'' @ [CHR 0x0A] @ ''xyz'' @ [CHR 0x0A]) (- 1) ''@@'' None None
       = Inl (SysExit 2 ''xyz'')"
  using BPE_init_invalid_line [of "''a b'' @ [CHR 0x0A] @ ''xyz'' @ [CHR 0x0A]" "- 1" "''@@''"
      None None]
  by (simp add: init_defs)





section \<open>Termination\<close>

lemma recursive_split_loops:
  "recursive_split [] (map_of (bpe_codes_reverse loop_bpe)) {''x''} ''@@'' True = None"
proof (rule ccontr)
  define br where "br = map_of (bpe_codes_reverse loop_bpe)"
  assume "recursive_split [] (map_of (bpe_codes_reverse loop_bpe)) {''x''} ''@@'' True \<noteq> None"
  then obtain ys where ys: "recursive_split [] br {''x''} ''@@'' True = Some ys"
    by (auto simp: br_def)
  have "\<not> (seg = [] \<and> b = br \<and> v = {''x''} \<and> sep = ''@@'' \<and> fin)"
    if "recursive_split seg b v sep fin = Some zs" for seg b v sep fin zs
  proof (rule recursive_split.raw_induct
      [where P = "\<lambda>seg b v sep fin zs.
                    \<not> (seg = [] \<and> b = br \<and> v = {''x''} \<and> sep = ''@@'' \<and> fin)",
        OF _ that], goal_cases)
    case (1 f seg b v sep fin zs)
    show ?case
    proof
      assume a: "seg = [] \<and> b = br \<and> v = {''x''} \<and> sep = ''@@'' \<and> fin"
      have "f [] br {''x''} ''@@'' True = None"
        using 1(1) [of "[]" br "{''x''}" "''@@''" True]
        by (cases "f [] br {''x''} ''@@'' True") auto
      with 1(2) a show False
        by (auto simp: br_def loop_bpe_def eow_def split: Option.bind_splits)
    qed
  qed
  with ys show False by blast
qed

lemma loop_lookup:
  "map_of (bpe_codes_reverse loop_bpe) ''a</w>'' = Some (''a'', ''</w>'')"
  "map_of (bpe_codes_reverse loop_bpe) ''a'' = None"
  "map_of (bpe_codes_reverse loop_bpe) ''b'' = None"
  by (simp_all add: loop_bpe_def)

lemma recursive_split_a:
  "recursive_split ''a'' (map_of (bpe_codes_reverse loop_bpe)) {''x''} ''@@'' False = Some [''a'']"
  by (subst recursive_split.simps) (simp add: loop_lookup)

lemma recursive_split_b:
  "recursive_split ''b'' (map_of (bpe_codes_reverse loop_bpe)) {''x''} ''@@'' False = Some [''b'']"
  by (subst recursive_split.simps) (simp add: loop_lookup)

lemma recursive_split_final_a:
  "recursive_split ''a'' (map_of (bpe_codes_reverse loop_bpe)) {''x''} ''@@'' True = None"
  by (subst recursive_split.simps)
     (simp add: eow_def loop_lookup recursive_split_a recursive_split_loops)

lemma check_vocab_loops:
  "check_vocab_and_split [''b'', ''a''] (map_of (bpe_codes_reverse loop_bpe)) {''x''} ''@@'' = None"
  by (simp add: check_vocab_and_split_def recursive_split_final_a recursive_split_b)

lemma encode_loops:
  "encode ''ba'' (map_of (bpe_codes loop_bpe)) (map_of (bpe_codes_reverse loop_bpe))
     (vocab loop_bpe) (separator loop_bpe) (version loop_bpe) (cache loop_bpe)
     (glossaries_regex loop_bpe) 0 zero_draws 0 = None"
proof -
  have m: "merge_loop (map_of (bpe_codes loop_bpe)) 0 zero_draws [''b'', ''a'', ''</w>''] 0
      = ([''b'', ''a</w>''], 0)"
    by (simp add: merge_loop.simps loop_bpe_def merge_pass_def entry_less_def)
  have v: "vocab loop_bpe = Some {''x''}" "separator loop_bpe = ''@@''"
    "version loop_bpe = [0, 1]" "cache loop_bpe = Map.empty" "glossaries_regex loop_bpe = None"
    by (simp_all add: loop_bpe_def)
  show ?thesis
    by (simp add: encode_def encode_uncached_def initial_word_def eow_def v
        m [unfolded eow_def, simplified] strip_eow_def suffix_to_prefix check_vocab_loops)
qed

text \<open>
  Claim C9 (the code departs from it).  The merge table of the two lines \<open>a </w>\<close> and
  \<open>< /w>\<close> is loaded; with the vocabulary \<open>{x}\<close>, \<open>process_line\<close> of \<open>ba\<close> never
  returns.  The merge loop ends with \<open>(b, a)\<close>; \<open>recursive_split\<close> of the final \<open>a\<close>
  finds \<open>a</w>\<close> in the reverse index and goes on with the empty right part in final
  mode, whose key \<open></w>\<close> is the concatenation of \<open><\<close> and \<open>/w>\<close>: the right part
  \<open>/w>\<close>, cut by four characters, is empty again, and the same call repeats.
\<close>

theorem process_line_never_returns:
  "BPE_init (''a </w>'' @ [CHR 0x0A] @ ''< /w>'' @ [CHR 0x0A]) (- 1) ''@@'' (Some {''x''}) None
     = Inr loop_bpe
   \<and> recursive_split [] (map_of (bpe_codes_reverse loop_bpe)) {''x''} ''@@'' True = None
   \<and> process_line loop_bpe ''ba'' 0 zero_draws 0 = None"
proof (intro conjI)
  show "BPE_init (''a </w>'' @ [CHR 0x0A] @ ''< /w>'' @ [CHR 0x0A]) (- 1) ''@@'' (Some {''x''})
      None = Inr loop_bpe"
    by (simp add: init_defs loop_bpe_def)
  show "recursive_split [] (map_of (bpe_codes_reverse loop_bpe)) {''x''} ''@@'' True = None"
    by (rule recursive_split_loops)
  have "glossaries loop_bpe = []" by (simp add: loop_bpe_def)
  then show "process_line loop_bpe ''ba'' 0 zero_draws 0 = None"
    by (simp add: process_line_def segment_def py_strip_def py_lstrip_def py_rstrip_def
        crnlsp_def encode_loops)
qed

section \<open>The end-of-word symbol in the results\<close>

text \<open>
  Three conditions used to state what \<open>encode\<close> keeps out of its results.  A string is
  \<open>marker_free\<close> when the text of the end-of-word symbol does not occur in it.  A
  reverse index is \<open>reverse_ok\<close> when every key is the concatenation of its pair and
  the right symbol is not empty, as in an index built by \<open>BPE_init\<close>.  A cache is
  \<open>cache_marker_ok\<close> when the entries of marker-free words hold marker-free symbols
  only, which is true of the empty cache and is kept by \<open>encode\<close>.
\<close>

definition marker_free :: "string \<Rightarrow> bool" where
  "marker_free s = (\<not> sublist eow s)"

definition reverse_ok :: "rcodes \<Rightarrow> bool" where
  "reverse_ok br = (\<forall>key l r. br key = Some (l, r) \<longrightarrow> key = l @ r \<and> r \<noteq> [])"

definition cache_marker_ok :: "cache \<Rightarrow> bool" where
  "cache_marker_ok c =
     (\<forall>w v. c w = Some v \<longrightarrow> marker_free w \<longrightarrow> (\<forall>s \<in> set (items v). marker_free s))"

lemma symbol_pairs_nth:
  assumes "(r, i, p) \<in> set (fst (symbol_pairs bc d rng k (enumerate 0 (zip word (tl word)))))"
  shows "i + 2 \<le> length word \<and> p = (word ! i, word ! (i + 1))"
proof -
  have m: "(i, p) \<in> set (enumerate 0 (zip word (tl word)))"
    using assms by (rule symbol_pairs_index)
  then have "i < length (zip word (tl word))" and "zip word (tl word) ! i = p"
    by (auto simp: in_set_enumerate_eq)
  then show ?thesis
    by (auto simp: nth_tl)
qed

lemma take_two_more:
  assumes "i \<le> j" and "j + 2 \<le> length word"
  shows "take (j + 2) word = take i word @ take (j - i) (drop i word) @ [word ! j, word ! (j + 1)]"
proof -
  have "take (j + 2) word = take j word @ [word ! j, word ! (j + 1)]"
    using assms(2) by (simp add: take_Suc_conv_app_nth)
  moreover have "take j word = take i word @ take (j - i) (drop i word)"
    using assms(1) by (metis le_add_diff_inverse take_add)
  ultimately show ?thesis by simp
qed

lemma merge_positions_inv:
  assumes "\<forall>j \<in> set js. j + 2 \<le> length word \<and> bigram = word ! j @ word ! (j + 1)"
    and "i \<le> length word" and "word \<noteq> []"
    and "concat new_word = concat (take i word)"
    and "i = length word \<longrightarrow> new_word \<noteq> [] \<and> suffix (last word) (last new_word)"
  shows "concat (merge_positions word bigram js i new_word) = concat word
       \<and> merge_positions word bigram js i new_word \<noteq> []
       \<and> suffix (last word) (last (merge_positions word bigram js i new_word))"
  using assms
proof (induction js arbitrary: i new_word)
  case Nil
  show ?case
  proof (cases "i = length word")
    case True
    with Nil show ?thesis by simp
  next
    case False
    with Nil.prems have "drop i word \<noteq> []" by simp
    moreover have "concat (take i word) @ concat (drop i word) = concat word"
      by (metis append_take_drop_id concat_append)
    ultimately show ?thesis
      using Nil.prems by simp
  qed
next
  case (Cons j js)
  show ?case
  proof (cases "j < i")
    case True
    have "concat (merge_positions word bigram js i new_word) = concat word
       \<and> merge_positions word bigram js i new_word \<noteq> []
       \<and> suffix (last word) (last (merge_positions word bigram js i new_word))"
      using Cons.prems by (intro Cons.IH) auto
    with True show ?thesis by simp
  next
    case False
    from Cons.prems have j: "j + 2 \<le> length word" "bigram = word ! j @ word ! (j + 1)"
      by simp_all
    let ?new = "new_word @ take (j - i) (drop i word) @ [bigram]"
    have "take (j + 2) word
        = take i word @ take (j - i) (drop i word) @ [word ! j, word ! (j + 1)]"
      using False j(1) by (intro take_two_more) auto
    then have "concat (take (j + 2) word)
        = concat (take i word) @ concat (take (j - i) (drop i word)) @ word ! j @ word ! (j + 1)"
      by (simp only: concat_append concat.simps append_Nil2)
    then have c: "concat ?new = concat (take (j + 2) word)"
      using j(2) Cons.prems(4) by simp
    have l: "j + 2 = length word \<longrightarrow> ?new \<noteq> [] \<and> suffix (last word) (last ?new)"
    proof
      assume e: "j + 2 = length word"
      then have "length word - 1 = j + 1" by simp
      moreover have "last word = word ! (length word - 1)"
        using Cons.prems(3) by (rule last_conv_nth)
      ultimately have "last word = word ! (j + 1)"
        by (simp only:)
      then show "?new \<noteq> [] \<and> suffix (last word) (last ?new)"
        by (simp add: j(2) suffix_def)
    qed
    have "concat (merge_positions word bigram js (j + 2) ?new) = concat word
       \<and> merge_positions word bigram js (j + 2) ?new \<noteq> []
       \<and> suffix (last word) (last (merge_positions word bigram js (j + 2) ?new))"
      using Cons.prems(1,3) j(1) c l by (intro Cons.IH) auto
    with False show ?thesis by simp
  qed
qed

lemma merge_pass_inv:
  assumes "\<forall>e \<in> set pairs. fst (snd e) + 2 \<le> length word
             \<and> snd (snd e) = (word ! fst (snd e), word ! (fst (snd e) + 1))"
    and "word \<noteq> []"
  shows "concat (merge_pass word pairs) = concat word \<and> merge_pass word pairs \<noteq> []
       \<and> suffix (last word) (last (merge_pass word pairs))"
  unfolding merge_pass_def Let_def
  using assms by (intro merge_positions_inv) auto

lemma merge_loop_inv:
  assumes "word \<noteq> []"
  shows "concat (fst (merge_loop bc d rng word k)) = concat word
       \<and> fst (merge_loop bc d rng word k) \<noteq> []
       \<and> suffix (last word) (last (fst (merge_loop bc d rng word k)))"
  using assms
proof (induction bc d rng word k rule: merge_loop.induct)
  case (1 bc d rng word k)
  define r where "r = symbol_pairs bc d rng k (enumerate 0 (zip word (tl word)))"
  show ?case
  proof (cases "length word > 1 \<and> fst r \<noteq> []")
    case False
    with 1(2) show ?thesis
      by (subst (1 2 3) merge_loop.simps) (auto simp: r_def Let_def)
  next
    case True
    have p: "concat (merge_pass word (fst r)) = concat word \<and> merge_pass word (fst r) \<noteq> []
       \<and> suffix (last word) (last (merge_pass word (fst r)))"
    proof (rule merge_pass_inv [OF _ 1(2)], rule ballI)
      fix e assume "e \<in> set (fst r)"
      then have "(fst e, fst (snd e), snd (snd e)) \<in> set (fst r)" by simp
      from symbol_pairs_nth [OF this [unfolded r_def]]
      show "fst (snd e) + 2 \<le> length word
             \<and> snd (snd e) = (word ! fst (snd e), word ! (fst (snd e) + 1))" .
    qed
    have ih: "concat (fst (merge_loop bc d rng (merge_pass word (fst r)) (snd r)))
          = concat (merge_pass word (fst r))
       \<and> fst (merge_loop bc d rng (merge_pass word (fst r)) (snd r)) \<noteq> []
       \<and> suffix (last (merge_pass word (fst r)))
            (last (fst (merge_loop bc d rng (merge_pass word (fst r)) (snd r))))"
      using True p by (intro 1(1) [OF _ r_def]) auto
    have "merge_loop bc d rng word k = merge_loop bc d rng (merge_pass word (fst r)) (snd r)"
      using True by (subst merge_loop.simps) (simp add: r_def Let_def)
    with ih p show ?thesis
      by (auto intro: suffix_order.trans)
  qed
qed

lemma marker_free_sublist: "marker_free t \<Longrightarrow> sublist s t \<Longrightarrow> marker_free s"
  unfolding marker_free_def by (meson sublist_order.order.trans)

lemma sublist_concat: "s \<in> set xs \<Longrightarrow> sublist s (concat xs)"
proof -
  assume "s \<in> set xs"
  then obtain ys zs where "xs = ys @ s # zs" by (meson split_list)
  then have "concat xs = concat ys @ s @ concat zs" by simp
  then show ?thesis by (simp only: sublist_appendI)
qed

lemma marker_free_concat:
  "marker_free (concat xs) \<Longrightarrow> \<forall>s \<in> set xs. marker_free s"
  using marker_free_sublist sublist_concat by blast

lemma initial_word_inv:
  assumes "initial_word orig ver = Inr word0"
  shows "word0 \<noteq> [] \<and> concat word0 = orig @ eow \<and> suffix eow (last word0)"
proof -
  have "concat (map (\<lambda>c. [c]) xs) = xs" for xs :: string
    by (induction xs) auto
  moreover have "butlast orig @ [last orig] = orig" if "orig \<noteq> []"
    using that by simp
  ultimately show ?thesis
    using assms
    by (auto simp: initial_word_def suffix_def split: if_splits simp flip: append_assoc)
qed

lemma strip_eow_inv:
  assumes "word1 \<noteq> []" and "concat word1 = orig @ eow" and "suffix eow (last word1)"
  shows "\<exists>word. strip_eow word1 = Inr word \<and> concat word = orig"
proof -
  obtain s where s: "last word1 = s @ eow"
    using assms(3) by (auto simp: suffix_def)
  have w: "word1 = butlast word1 @ [s @ eow]"
    using assms(1) s by (metis append_butlast_last_id)
  then have "concat word1 = concat (butlast word1) @ s @ eow"
    by (metis concat_append concat.simps append_Nil2)
  with assms(2) have c: "concat (butlast word1) @ s = orig"
    by simp
  show ?thesis
  proof (cases "s = []")
    case True
    with s c assms(1) show ?thesis by (simp add: strip_eow_def)
  next
    case False
    then have "last word1 \<noteq> eow" using s by simp
    moreover have "take (length (last word1) - 4) (last word1) = s"
      using s by (simp add: eow_def)
    ultimately show ?thesis
      using assms(1,3) c by (simp add: strip_eow_def)
  qed
qed

lemma merge_result_inv:
  assumes "initial_word orig ver = Inr word0"
    and "merge_loop bc d rng word0 k = (word1, k')"
  shows "\<exists>word. strip_eow word1 = Inr word \<and> concat word = orig"
proof -
  from initial_word_inv [OF assms(1)]
  have i: "word0 \<noteq> []" "concat word0 = orig @ eow" "suffix eow (last word0)" by simp_all
  from merge_loop_inv [OF i(1), of bc d rng k] assms(2)
  have "concat word1 = concat word0" "word1 \<noteq> []" "suffix (last word0) (last word1)"
    by simp_all
  with i show ?thesis
    by (intro strip_eow_inv) (auto intro: suffix_order.trans)
qed

lemma marker_free_strict_prefix:
  assumes "marker_free seg" and "seg @ eow = left @ right" and "right \<noteq> []"
  shows "marker_free left"
proof -
  have "prefix left (seg @ butlast eow)"
  proof -
    have "left @ butlast right @ [last right] = seg @ butlast eow @ [last eow]"
      using assms(2,3) by (simp add: eow_def)
    then have "left @ butlast right = seg @ butlast eow"
      by (metis append_assoc append1_eq_conv)
    then show ?thesis by (metis prefixI)
  qed
  moreover have "marker_free (seg @ butlast eow)"
    unfolding marker_free_def
  proof
    assume "sublist eow (seg @ butlast eow)"
    then consider "sublist eow seg" | "sublist eow (butlast eow)"
      | xs1 xs2 where "eow = xs1 @ xs2" "suffix xs1 seg" "prefix xs2 (butlast eow)"
      unfolding sublist_append by blast
    then show False
    proof cases
      case 1
      with assms(1) show False by (simp add: marker_free_def)
    next
      case 2
      then have "length eow \<le> length (butlast eow)" by (rule sublist_length_le)
      then show False by (simp add: eow_def)
    next
      case 3
      show False
      proof (cases "xs2 = []")
        case True
        with 3 have "sublist eow seg" by auto
        with assms(1) show False by (simp add: marker_free_def)
      next
        case False
        with 3(1) have "last xs2 = last eow" by (metis last_appendR)
        moreover have "last xs2 \<in> set (butlast eow)"
          using False 3(3) set_mono_prefix last_in_set by blast
        ultimately show False by (simp add: eow_def)
      qed
    qed
  qed
  ultimately show ?thesis
    by (meson marker_free_sublist prefix_imp_sublist)
qed

lemma marker_free_cut_right:
  assumes "marker_free seg" and "seg @ eow = left @ right"
  shows "marker_free (take (length right - 4) right)"
proof (cases "length right \<ge> 4")
  case False
  then show ?thesis by (simp add: marker_free_def eow_def)
next
  case True
  define r where "r = take (length right - 4) right"
  define t where "t = drop (length right - 4) right"
  have rt: "right = r @ t" and lt: "length t = length eow"
    using True by (simp_all add: r_def t_def eow_def)
  have "seg @ eow = (left @ r) @ t"
    using assms(2) rt by simp
  with lt have "seg = left @ r" by (metis append_eq_append_conv)
  then have "sublist r seg" by simp
  with assms(1) show ?thesis
    unfolding r_def [symmetric] by (rule marker_free_sublist)
qed

lemma recursive_split_marker_free:
  assumes "recursive_split seg br v sep fin = Some ys"
  shows "reverse_ok br \<longrightarrow> marker_free seg \<longrightarrow> (\<forall>y \<in> set ys. marker_free y)"
proof (rule recursive_split.raw_induct
    [where P = "\<lambda>seg br v sep fin ys.
                  reverse_ok br \<longrightarrow> marker_free seg \<longrightarrow> (\<forall>y \<in> set ys. marker_free y)",
      OF _ assms], goal_cases)
  case (1 f seg br v sep fin ys)
  show ?case
  proof (intro impI)
    assume ok: "reverse_ok br" and mf: "marker_free seg"
    define look where "look = (if fin then
              (case br (seg @ eow) of
                 None \<Rightarrow> None
               | Some (left, right) \<Rightarrow> Some (left, take (length right - 4) right))
            else br seg)"
    show "\<forall>y \<in> set ys. marker_free y"
    proof (cases look)
      case None
      with 1(2) mf show ?thesis by (auto simp: look_def [symmetric])
    next
      case (Some lr)
      obtain left right where lr: "lr = (left, right)" by (cases lr)
      have m: "marker_free left \<and> marker_free right"
      proof (cases fin)
        case True
        with Some lr obtain right0 where b: "br (seg @ eow) = Some (left, right0)"
          and r: "right = take (length right0 - 4) right0"
          by (auto simp: look_def split: option.splits)
        from ok b have "seg @ eow = left @ right0" "right0 \<noteq> []"
          by (auto simp: reverse_ok_def)
        with mf r show ?thesis
          using marker_free_strict_prefix marker_free_cut_right by blast
      next
        case False
        with Some lr have "br seg = Some (left, right)" by (simp add: look_def)
        with ok have "seg = left @ right" by (auto simp: reverse_ok_def)
        with mf show ?thesis
          by (metis marker_free_sublist sublist_append_leftI sublist_append_rightI)
      qed
      from 1(2) Some lr obtain ls rs where ys: "ys = ls @ rs"
        and ls: "(if left @ sep \<in> v then Some [left] else f left br v sep False) = Some ls"
        and rs: "(if (fin \<and> right \<in> v) \<or> (\<not> fin \<and> right @ sep \<in> v) then Some [right]
                  else f right br v sep fin) = Some rs"
        by (auto simp: look_def [symmetric] split: Option.bind_splits)
      have "\<forall>y \<in> set ls. marker_free y"
        using ls m ok 1(1) [of left br v sep False ls] by (auto split: if_splits)
      moreover have "\<forall>y \<in> set rs. marker_free y"
        using rs m ok 1(1) [of right br v sep fin rs] by (auto split: if_splits)
      ultimately show ?thesis by (auto simp: ys)
    qed
  qed
qed

lemma check_vocab_loop_marker_free:
  assumes "check_vocab_loop segs br v sep out = Some res" and "reverse_ok br"
    and "\<forall>s \<in> set segs. marker_free s" and "\<forall>s \<in> set out. marker_free s"
  shows "\<forall>s \<in> set res. marker_free s"
  using assms
proof (induction segs arbitrary: out)
  case Nil
  then show ?case by simp
next
  case (Cons seg segs)
  show ?case
  proof (cases "seg @ sep \<in> v")
    case True
    with Cons.prems show ?thesis
      by (intro Cons.IH [of "out @ [seg]"]) auto
  next
    case False
    with Cons.prems(1) obtain ys where ys: "recursive_split seg br v sep False = Some ys"
      and l: "check_vocab_loop segs br v sep (out @ ys) = Some res"
      by (auto split: option.splits)
    from recursive_split_marker_free [OF ys] Cons.prems have "\<forall>y \<in> set ys. marker_free y"
      by simp
    with l Cons.prems show ?thesis
      by (intro Cons.IH [of "out @ ys"]) auto
  qed
qed

lemma check_vocab_and_split_marker_free:
  assumes "check_vocab_and_split orig br v sep = Some (Inr res)" and "reverse_ok br"
    and "\<forall>s \<in> set orig. marker_free s"
  shows "\<forall>s \<in> set res. marker_free s"
proof -
  from assms(1) obtain out where out: "check_vocab_loop (butlast orig) br v sep [] = Some out"
    and ne: "orig \<noteq> []"
    and res: "(if last orig \<in> v then Some (Inr (out @ [last orig]))
           else (case recursive_split (last orig) br v sep True of
                   None \<Rightarrow> None
                 | Some ys \<Rightarrow> Some (Inr (out @ ys)))) = Some (Inr res)"
    by (auto simp: check_vocab_and_split_def split: option.splits if_splits)
  have "\<forall>s \<in> set (butlast orig). marker_free s"
    using assms(3) by (meson in_set_butlastD)
  with out assms(2) have o: "\<forall>s \<in> set out. marker_free s"
    by (intro check_vocab_loop_marker_free [OF out]) auto
  have l: "marker_free (last orig)"
    using ne assms(3) by simp
  show ?thesis
  proof (cases "last orig \<in> v")
    case True
    with res o l show ?thesis by auto
  next
    case False
    with res obtain ys where ys: "recursive_split (last orig) br v sep True = Some ys"
      and "res = out @ ys"
      by (auto split: option.splits)
    with recursive_split_marker_free [OF ys] assms(2) l o show ?thesis by auto
  qed
qed

lemma marker_free_short: "length s < 4 \<Longrightarrow> marker_free s"
  unfolding marker_free_def using sublist_length_le [of eow s] by (auto simp: eow_def)

lemma encode_uncached_marker_free:
  assumes "encode_uncached w bc br voc sep ver c gre d rng k = Some (Inr (r, c', k'))"
    and "marker_free w" and "reverse_ok br"
  shows "\<forall>s \<in> set (items r). marker_free s"
proof (cases "(case gre of None \<Rightarrow> False | Some re \<Rightarrow> re w) \<or> length w = 1")
  case True
  with assms(1) have "r = PyTuple [w] \<or> r = PyStr w"
    by (auto simp: encode_uncached_def split: if_splits)
  with assms(2) show ?thesis
    by (auto simp: marker_free_short)
next
  case False
  with assms(1) obtain word0 word1 k1 where
    i: "initial_word w ver = Inr word0" and m: "merge_loop bc d rng word0 k = (word1, k1)"
    by (auto simp: encode_uncached_def split: sum.splits prod.splits)
  from merge_result_inv [OF i m] obtain word where
    s: "strip_eow word1 = Inr word" and c: "concat word = w"
    by blast
  from c assms(2) have mf: "\<forall>s \<in> set word. marker_free s"
    by (intro marker_free_concat) simp
  show ?thesis
  proof (cases "case voc of None \<Rightarrow> None | Some v \<Rightarrow> if v = {} then None else Some v")
    case None
    with assms(1) False i m s have "r = PyTuple word"
      by (auto simp: encode_uncached_def)
    with mf show ?thesis by simp
  next
    case (Some v)
    with assms(1) False i m s obtain out where
      "check_vocab_and_split word br v sep = Some (Inr out)" and "r = PyList out"
      by (auto simp: encode_uncached_def split: option.splits sum.splits)
    with check_vocab_and_split_marker_free [OF _ assms(3) mf] show ?thesis
      by simp
  qed
qed

lemma update_set_subset: "set (AList.update k v al) \<subseteq> insert (k, v) (set al)"
  by (induction al) auto

lemma py_dict_subset_aux:
  "set (foldl (\<lambda>d kv. AList.update (fst kv) (snd kv) d) d0 kvs) \<subseteq> set d0 \<union> set kvs"
proof (induction kvs arbitrary: d0)
  case Nil
  show ?case by simp
next
  case (Cons kv kvs)
  have "set (AList.update (fst kv) (snd kv) d0) \<subseteq> insert kv (set d0)"
    using update_set_subset [of "fst kv" "snd kv" d0] by simp
  with Cons [of "AList.update (fst kv) (snd kv) d0"] show ?case by auto
qed

lemma py_dict_subset: "set (py_dict kvs) \<subseteq> set kvs"
  using py_dict_subset_aux [of "[]" kvs] by (simp add: py_dict_def)

lemma rstrip_last:
  assumes "py_rstrip chars s \<noteq> []"
  shows "last (py_rstrip chars s) \<notin> set chars"
proof -
  have "dropWhile (\<lambda>c. c \<in> set chars) (rev s) \<noteq> []"
    using assms by (simp add: py_rstrip_def)
  from hd_dropWhile [OF this] show ?thesis
    by (simp add: py_rstrip_def last_rev)
qed

lemma split_two_second:
  assumes "py_split (CHR '' '') (py_strip crnlsp l) = [a, b]"
  shows "b \<noteq> []"
proof
  assume "b = []"
  with assms have "py_join '' '' (py_split (CHR '' '') (py_strip crnlsp l)) = a @ '' ''"
    by simp
  then have s: "py_strip crnlsp l = a @ '' ''"
    by (simp only: py_join_split)
  then have "py_rstrip crnlsp (py_lstrip crnlsp l) \<noteq> []"
    "last (py_rstrip crnlsp (py_lstrip crnlsp l)) = CHR '' ''"
    by (simp_all add: py_strip_def)
  with rstrip_last [of crnlsp "py_lstrip crnlsp l"] show False
    by (simp add: crnlsp_def)
qed

lemma BPE_init_reverse_ok:
  assumes "BPE_init codes merges sep voc gloss = Inr bpe"
  shows "reverse_ok (map_of (bpe_codes_reverse bpe))"
  unfolding reverse_ok_def
proof (intro allI impI)
  fix key l r
  assume k: "map_of (bpe_codes_reverse bpe) key = Some (l, r)"
  define its where "its = read_items (merge_lines codes) merges"
  define cd where "cd = py_dict (rev (map (\<lambda>(i, code). ((code ! 0, code ! 1), i))
                                                  (enumerate 0 its)))"
  from assms have chk: "check_items 0 (line_offset codes) its = None"
    and rv: "bpe_codes_reverse bpe = py_dict (map (\<lambda>(pair, i). (fst pair @ snd pair, pair)) cd)"
    by (auto simp: BPE_init_def Let_def its_def cd_def split: sum.splits option.splits)
  from k have "(key, (l, r)) \<in> set (bpe_codes_reverse bpe)"
    by (rule map_of_SomeD)
  with rv py_dict_subset [of "map (\<lambda>(pair, i). (fst pair @ snd pair, pair)) cd"]
  have "(key, (l, r)) \<in> set (map (\<lambda>(pair, i). (fst pair @ snd pair, pair)) cd)"
    by auto
  then obtain i where key: "key = l @ r" and "((l, r), i) \<in> set cd"
    by auto
  with py_dict_subset [of "rev (map (\<lambda>(i, code). ((code ! 0, code ! 1), i)) (enumerate 0 its))"]
  have "((l, r), i) \<in> set (map (\<lambda>(i, code). ((code ! 0, code ! 1), i)) (enumerate 0 its))"
    unfolding cd_def by auto
  then obtain n where "n < length its" "l = its ! n ! 0" "r = its ! n ! 1"
    by (auto simp: in_set_enumerate_eq)
  then obtain code where code: "code \<in> set its" "l = code ! 0" "r = code ! 1"
    using nth_mem by blast
  from chk code(1) have len: "length code = 2"
    by (simp add: check_items_none)
  from code(1) obtain line where line: "code = py_split (CHR '' '') (py_strip crnlsp line)"
    by (auto simp: its_def read_items_take)
  from len obtain a b where ab: "code = [a, b]"
    by (cases code; cases "tl code") auto
  from line ab have "py_split (CHR '' '') (py_strip crnlsp line) = [a, b]"
    by simp
  then have "b \<noteq> []"
    by (rule split_two_second)
  with key code ab show "key = l @ r \<and> r \<noteq> []" by simp
qed

text \<open>
  Claim C8, as stated, fails for a word that holds the text of the end-of-word symbol
  and a table whose merges build that text: under both conventions \<open>encode\<close> of the
  word \<open></w>\<close> returns the one symbol \<open></w>\<close>.
\<close>

theorem encode_returns_end_marker:
  "encode ''</w>'' [(''<'', ''/'') \<mapsto> 0, (''</'', ''w'') \<mapsto> 1, (''</w'', ''>'') \<mapsto> 2]
      Map.empty None ''@@'' [0, 1] Map.empty None 0 zero_draws 0
     = Some (Inr (PyTuple [''</w>''], [''</w>'' \<mapsto> PyTuple [''</w>'']], 0))
   \<and> encode ''</w>''
        [(''<'', ''/'') \<mapsto> 0, (''</'', ''w'') \<mapsto> 1, (''</w'', ''></w>'') \<mapsto> 2]
        Map.empty None ''@@'' [0, 2] Map.empty None 0 zero_draws 0
     = Some (Inr (PyTuple [''</w>''], [''</w>'' \<mapsto> PyTuple [''</w>'']], 0))
   \<and> ''</w>'' = eow"
  by (simp add: encode_def encode_uncached_def initial_word_def merge_loop.simps strip_eow_def
      eow_def suffix_to_prefix merge_pass_def entry_less_def)

text \<open>
  Claim C8, amended.  For a word in which the text \<open></w>\<close> does not occur, under either
  convention (and any other parameters), with a reverse index whose keys are the
  concatenations of their pairs and a cache filled by \<open>encode\<close>: no symbol of a returned
  result is the end-of-word symbol, ends with it, or holds it anywhere; and the cache
  stays one that \<open>encode\<close> has filled.
\<close>

theorem encode_hides_end_marker:
  assumes "encode w bc br voc sep ver c gre d rng k = Some (Inr (r, c', k'))"
    and "\<not> sublist eow w" and "reverse_ok br" and "cache_marker_ok c"
  shows "(\<forall>s \<in> set (items r). s \<noteq> eow \<and> \<not> suffix eow s \<and> \<not> sublist eow s)
       \<and> cache_marker_ok c'"
proof -
  have w: "marker_free w"
    using assms(2) by (simp add: marker_free_def)
  have r: "\<forall>s \<in> set (items r). marker_free s"
  proof (cases "if d = 0 then c w else None")
    case (Some hit)
    with assms(1) have "c w = Some r"
      by (auto simp: encode_def split: if_splits)
    with assms(4) w show ?thesis
      by (auto simp: cache_marker_ok_def)
  next
    case None
    with assms(1) have "encode_uncached w bc br voc sep ver c gre d rng k = Some (Inr (r, c', k'))"
      by (simp add: encode_def)
    then show ?thesis
      using w assms(3) by (rule encode_uncached_marker_free)
  qed
  have "cache_marker_ok c'"
    using encode_cache [OF assms(1)] assms(4) r
    by (auto simp: cache_marker_ok_def split: if_splits)
  moreover have "s \<noteq> eow \<and> \<not> suffix eow s \<and> \<not> sublist eow s" if "marker_free s" for s
    using that unfolding marker_free_def by auto
  ultimately show ?thesis
    using r by blast
qed

theorem encode_hides_end_marker_witness:
  "encode ''ab'' [(''a'', ''b'') \<mapsto> 0] (map_of [(''ab'', (''a'', ''b''))]) (Some {''ab''}) ''@@''
      [0, 1] Map.empty None 0 zero_draws 0
     = Some (Inr (PyList [''ab''], [''ab'' \<mapsto> PyList [''ab'']], 0))
   \<and> \<not> sublist eow ''ab''
   \<and> reverse_ok (map_of [(''ab'', (''a'', ''b''))])
   \<and> cache_marker_ok Map.empty
   \<and> items (PyList [''ab'']) = [''ab'']
   \<and> ''ab'' \<noteq> eow \<and> \<not> suffix eow ''ab''
   \<and> cache_marker_ok [''ab'' \<mapsto> PyList [''ab'']]"
proof -
  have e: "encode ''ab'' [(''a'', ''b'') \<mapsto> 0] (map_of [(''ab'', (''a'', ''b''))])
      (Some {''ab''}) ''@@'' [0, 1] Map.empty None 0 zero_draws 0
     = Some (Inr (PyList [''ab''], [''ab'' \<mapsto> PyList [''ab'']], 0))"
    by (simp add: encode_def encode_uncached_def initial_word_def merge_loop.simps strip_eow_def
        eow_def suffix_to_prefix merge_pass_def entry_less_def check_vocab_and_split_def)
  have h: "\<not> sublist eow ''ab''" "reverse_ok (map_of [(''ab'', (''a'', ''b''))])"
    "cache_marker_ok Map.empty"
    by (auto simp: eow_def sublist_code(3) reverse_ok_def cache_marker_ok_def split: if_splits)
  show ?thesis
    using encode_hides_end_marker [OF e h] e h by simp
qed

end
